theory Spec2Isabelle
  imports Main
begin

section \<open>The snapshot upload agent (cassandra\_snapshotter/agent.py)\<close>

text \<open>
  The agent talks to an object store (boto's S3 bucket and multipart-upload objects), to a
  compression pipe and to the local disk. Each call of the source that reaches one of them
  is an event of a trace; the answer of the outside world to a call is read from a
  \<open>remote\<close>, a record of functions of the trace so far, so that every deterministic
  behaviour of the store is one value of the record. An exception of the source is the
  \<open>Inl\<close> side of a sum; \<open>try ... except Exception\<close> is a case split on it.
  Calls of the logger write to the log only and are left out of the trace; the call
  \<open>mp.to_xml()\<close> that builds the argument of one of them (line 91) asks the store for
  the parts of the upload and is an event.
\<close>

subsection \<open>Constants (agent.py, lines 25 to 30)\<close>

definition MBFACTOR :: nat where
  "MBFACTOR = 2 ^ 20"

definition MAX_RETRY_COUNT :: nat where
  "MAX_RETRY_COUNT = 3"

definition SLEEP_TIME :: nat where
  "SLEEP_TIME = 2"

definition UPLOAD_TIMEOUT :: nat where
  "UPLOAD_TIMEOUT = 600"

subsection \<open>Events, exceptions and the outside world\<close>

datatype exn = S3ResponseError | OSError

text \<open>
  A multipart upload object (\<open>mp\<close>) is named by a number. The session that
  \<open>initiate_multipart_upload\<close> returns is named by the position of its event in the
  trace, so two initiations never share a name. The fourth field of \<open>UploadPart\<close> is
  the wall-clock limit under which the call runs: \<open>None\<close> for a direct call of
  \<open>mp.upload_part_from_file\<close>, \<open>Some t\<close> for a call made through a function wrapped
  by \<open>@timeout(t)\<close>. The last field of the calls to the store tells whether the call
  returned (\<open>True\<close>) or raised.
\<close>

type_synonym session = nat

datatype event =
    Initiate string bool "session option"
  | UploadPart session nat string "nat option" bool
  | Complete session bool
  | ToXml session bool
  | Cancel session bool
  | ListUploads "(string \<times> session) list" bool
  | Sleep nat

type_synonym trace = "event list"

text \<open>
  \<open>listing r tr\<close> is what iterating \<open>bucket.list_multipart_uploads()\<close> yields: the
  uploads in progress, as pairs of \<open>key_name\<close> and upload, and whether the iteration
  raises after the last of them. \<open>compressed_pipe\<close> (cassandra\_snapshotter/utils.py, not
  part of agent.py) is taken as a parameter: the chunks that it yields for a path and a
  buffer size, a new generator at every call.
\<close>

record remote =
  initiate_ok :: "trace \<Rightarrow> bool"
  part_ok :: "trace \<Rightarrow> bool"
  complete_ok :: "trace \<Rightarrow> bool"
  to_xml_ok :: "trace \<Rightarrow> bool"
  cancel_ok :: "trace \<Rightarrow> bool"
  listing :: "trace \<Rightarrow> (string \<times> session) list \<times> bool"
  compressed_pipe :: "string \<Rightarrow> nat \<Rightarrow> string list"

subsection \<open>destination\_path (lines 50 to 52)\<close>

definition destination_path :: "string \<Rightarrow> string \<Rightarrow> bool \<Rightarrow> string" where
  "destination_path s3_base_path file_path compressed =
     (let suffix = (if compressed then ''.lzo'' else '''')
      in s3_base_path @ ''/'' @ (file_path @ suffix))"

subsection \<open>cancel\_upload (lines 103 to 121)\<close>

text \<open>
  The loop \<open>for mp in bucket.list_multipart_uploads(): if mp.key_name == remote_path:
  mp.cancel_upload()\<close>. Its variable is the function's own \<open>mp\<close>, so the loop rebinds
  it; the second component of the result is the upload that \<open>mp\<close> names when the loop
  ends or raises.
\<close>

fun cancel_listed ::
  "remote \<Rightarrow> string \<Rightarrow> session \<Rightarrow> (string \<times> session) list \<Rightarrow> trace
     \<Rightarrow> (exn + unit) \<times> session \<times> trace" where
  "cancel_listed r remote_path mp [] tr = (Inr (), mp, tr)"
| "cancel_listed r remote_path mp ((key_name, mp') # rest) tr =
     (if key_name = remote_path then
        (if cancel_ok r tr
         then cancel_listed r remote_path mp' rest (tr @ [Cancel mp' True])
         else (Inl S3ResponseError, mp', tr @ [Cancel mp' False]))
      else cancel_listed r remote_path mp' rest tr)"

text \<open>The body of the \<open>try\<close> (lines 112 to 118); \<open>Inr ()\<close> is its \<open>return\<close>.\<close>

definition cancel_attempt ::
  "remote \<Rightarrow> string \<Rightarrow> session \<Rightarrow> trace \<Rightarrow> (exn + unit) \<times> session \<times> trace" where
  "cancel_attempt r remote_path mp tr =
     (let tr1 = tr @ [Sleep SLEEP_TIME] in
      if \<not> cancel_ok r tr1 then (Inl S3ResponseError, mp, tr1 @ [Cancel mp False])
      else
        let tr2 = tr1 @ [Cancel mp True, Sleep SLEEP_TIME];
            found = fst (listing r tr2);
            broken = snd (listing r tr2);
            tr3 = tr2 @ [ListUploads found broken]
        in case cancel_listed r remote_path mp found tr3 of
             (Inl e, mp', tr4) \<Rightarrow> (Inl e, mp', tr4)
           | (Inr u, mp', tr4) \<Rightarrow>
               if broken then (Inl S3ResponseError, mp', tr4) else (Inr (), mp', tr4))"

function cancel_upload_loop ::
  "remote \<Rightarrow> string \<Rightarrow> session \<Rightarrow> nat \<Rightarrow> trace \<Rightarrow> (exn + unit) \<times> trace" where
  "cancel_upload_loop r remote_path mp attempts tr =
     (if attempts < 5 then
        (case cancel_attempt r remote_path mp tr of
           (Inr u, mp', tr') \<Rightarrow> (Inr (), tr')
         | (Inl e, mp', tr') \<Rightarrow> cancel_upload_loop r remote_path mp' (attempts + 1) tr')
      else (Inr (), tr))"
  by pat_completeness auto
termination
  by (relation "measure (\<lambda>(r, remote_path, mp, attempts, tr). 5 - attempts)") auto

declare cancel_upload_loop.simps [simp del]

definition cancel_upload :: "remote \<Rightarrow> session \<Rightarrow> string \<Rightarrow> trace \<Rightarrow> (exn + unit) \<times> trace" where
  "cancel_upload r mp remote_path tr = cancel_upload_loop r remote_path mp 0 tr"

subsection \<open>upload\_chunk (lines 98 to 100)\<close>

text \<open>
  The part upload under the decorator \<open>@timeout(UPLOAD_TIMEOUT)\<close>. The decorator is
  defined in cassandra\_snapshotter/timeout.py, outside agent.py; all that is modelled of
  it is that the call it wraps runs under that limit.
\<close>

definition upload_chunk :: "remote \<Rightarrow> session \<Rightarrow> string \<Rightarrow> nat \<Rightarrow> trace \<Rightarrow> (exn + unit) \<times> trace" where
  "upload_chunk r mp chunk index tr =
     (if part_ok r tr then (Inr (), tr @ [UploadPart mp index chunk (Some UPLOAD_TIMEOUT) True])
      else (Inl S3ResponseError, tr @ [UploadPart mp index chunk (Some UPLOAD_TIMEOUT) False]))"

subsection \<open>upload\_file (lines 60 to 95)\<close>

text \<open>
  The loop \<open>for i, chunk in enumerate(compressed_pipe(source, bufsize)):
  mp.upload_part_from_file(chunk, i + 1, cb=...)\<close> of lines 72 and 73, over the
  enumerated chunks.
\<close>

fun upload_parts :: "remote \<Rightarrow> session \<Rightarrow> (nat \<times> string) list \<Rightarrow> trace \<Rightarrow> (exn + unit) \<times> trace" where
  "upload_parts r mp [] tr = (Inr (), tr)"
| "upload_parts r mp ((i, chunk) # rest) tr =
     (if part_ok r tr
      then upload_parts r mp rest (tr @ [UploadPart mp (i + 1) chunk None True])
      else (Inl S3ResponseError, tr @ [UploadPart mp (i + 1) chunk None False]))"

text \<open>
  \<open>cancel_upload(bucket, mp, destination); return False\<close>: the \<open>return\<close> is reached
  only when the call does not raise.
\<close>

definition cancel_and_fail :: "remote \<Rightarrow> session \<Rightarrow> string \<Rightarrow> trace \<Rightarrow> (exn + bool) \<times> trace" where
  "cancel_and_fail r mp destination tr =
     (case cancel_upload r mp destination tr of
        (Inl e, tr') \<Rightarrow> (Inl e, tr')
      | (Inr u, tr') \<Rightarrow> (Inr False, tr'))"

text \<open>
  The loop \<open>while True\<close> of lines 63 to 95. In the handler of a failed
  \<open>complete_upload\<close>, \<open>mp.to_xml()\<close> is called before \<open>cancel_upload\<close> and outside
  every \<open>try\<close>: when it raises, the exception leaves \<open>upload_file\<close>.
\<close>

function upload_file_loop ::
  "remote \<Rightarrow> string \<Rightarrow> string \<Rightarrow> bool \<Rightarrow> nat \<Rightarrow> nat \<Rightarrow> trace \<Rightarrow> (exn + bool) \<times> trace" where
  "upload_file_loop r source destination s3_ssenc bufsize retry_count tr =
     (if \<not> initiate_ok r tr then (Inr False, tr @ [Initiate destination s3_ssenc None])
      else
        let mp = length tr;
            tr1 = tr @ [Initiate destination s3_ssenc (Some mp)]
        in case upload_parts r mp (enumerate 0 (compressed_pipe r source bufsize)) tr1 of
             (Inl exc, tr2) \<Rightarrow>
               if retry_count \<ge> MAX_RETRY_COUNT then cancel_and_fail r mp destination tr2
               else upload_file_loop r source destination s3_ssenc bufsize (retry_count + 1)
                      (tr2 @ [Sleep SLEEP_TIME])
           | (Inr u, tr2) \<Rightarrow>
               if complete_ok r tr2 then (Inr True, tr2 @ [Complete mp True])
               else
                 let tr3 = tr2 @ [Complete mp False]
                 in if to_xml_ok r tr3
                    then cancel_and_fail r mp destination (tr3 @ [ToXml mp True])
                    else (Inl S3ResponseError, tr3 @ [ToXml mp False]))"
  by pat_completeness auto
termination
  by (relation "measure (\<lambda>(r, source, destination, s3_ssenc, bufsize, retry_count, tr).
        MAX_RETRY_COUNT - retry_count)") auto

declare upload_file_loop.simps [simp del]

definition upload_file ::
  "remote \<Rightarrow> string \<Rightarrow> string \<Rightarrow> bool \<Rightarrow> nat \<Rightarrow> (exn + bool) \<times> trace" where
  "upload_file r source destination s3_ssenc bufsize =
     upload_file_loop r source destination s3_ssenc bufsize 0 []"

subsection \<open>Reading a trace\<close>

fun is_initiate :: "event \<Rightarrow> bool" where
  "is_initiate (Initiate d e s) = True"
| "is_initiate _ = False"

fun is_part :: "event \<Rightarrow> bool" where
  "is_part (UploadPart mp i c l ok) = True"
| "is_part _ = False"

fun is_complete :: "event \<Rightarrow> bool" where
  "is_complete (Complete mp ok) = True"
| "is_complete _ = False"

fun is_cancel :: "event \<Rightarrow> bool" where
  "is_cancel (Cancel mp ok) = True"
| "is_cancel _ = False"

fun is_listing :: "event \<Rightarrow> bool" where
  "is_listing (ListUploads found broken) = True"
| "is_listing _ = False"

fun is_sleep :: "event \<Rightarrow> bool" where
  "is_sleep (Sleep n) = True"
| "is_sleep _ = False"

text \<open>The events that \<open>cancel_upload\<close> can add: sleeping, cancelling, listing.\<close>

fun is_cleanup :: "event \<Rightarrow> bool" where
  "is_cleanup (Sleep n) = True"
| "is_cleanup (Cancel mp ok) = True"
| "is_cleanup (ListUploads found broken) = True"
| "is_cleanup _ = False"

text \<open>The part uploads of a trace that carry a given index, and its sessions.\<close>

fun is_part_at :: "nat \<Rightarrow> event \<Rightarrow> bool" where
  "is_part_at n (UploadPart mp i c l ok) = (i = n)"
| "is_part_at n _ = False"

fun sessions_of :: "trace \<Rightarrow> session list" where
  "sessions_of [] = []"
| "sessions_of (Initiate d e (Some mp) # tr) = mp # sessions_of tr"
| "sessions_of (ev # tr) = sessions_of tr"

text \<open>The calls of \<open>complete_upload\<close> and \<open>cancel_upload\<close> on one session.\<close>

fun ends_session :: "session \<Rightarrow> event \<Rightarrow> bool" where
  "ends_session s (Complete mp ok) = (mp = s)"
| "ends_session s (Cancel mp ok) = (mp = s)"
| "ends_session s _ = False"

text \<open>The events of part uploads that all returned, for enumerated chunks.\<close>

definition ok_parts :: "session \<Rightarrow> (nat \<times> string) list \<Rightarrow> event list" where
  "ok_parts mp ics = map (\<lambda>(i, chunk). UploadPart mp (i + 1) chunk None True) ics"

text \<open>
  A store whose part upload raises on its first \<open>M\<close> calls and returns on every later
  one, and where nothing else fails.
\<close>

definition flaky :: "nat \<Rightarrow> string list \<Rightarrow> remote" where
  "flaky M chunks =
     \<lparr>initiate_ok = (\<lambda>tr. True),
      part_ok = (\<lambda>tr. M \<le> length (filter is_part tr)),
      complete_ok = (\<lambda>tr. True),
      to_xml_ok = (\<lambda>tr. True),
      cancel_ok = (\<lambda>tr. True),
      listing = (\<lambda>tr. ([], False)),
      compressed_pipe = (\<lambda>source bufsize. chunks)\<rparr>"

text \<open>
  The index of the part that a pass uploads next (one more than the part uploads since the
  last other event) and the part uploads of a trace that raised.
\<close>

definition next_part :: "trace \<Rightarrow> nat" where
  "next_part tr = Suc (length (takeWhile is_part (rev tr)))"

fun is_failed_part :: "event \<Rightarrow> bool" where
  "is_failed_part (UploadPart mp i c l ok) = (\<not> ok)"
| "is_failed_part _ = False"

text \<open>
  A store where the upload of the chunk \<open>j\<close> raises until it has raised \<open>M\<close> times,
  and where nothing else fails.
\<close>

definition chunk_fails :: "nat \<Rightarrow> nat \<Rightarrow> string list \<Rightarrow> remote" where
  "chunk_fails j M chunks =
     \<lparr>initiate_ok = (\<lambda>tr. True),
      part_ok = (\<lambda>tr. next_part tr \<noteq> j \<or> M \<le> length (filter is_failed_part tr)),
      complete_ok = (\<lambda>tr. True),
      to_xml_ok = (\<lambda>tr. True),
      cancel_ok = (\<lambda>tr. True),
      listing = (\<lambda>tr. ([], False)),
      compressed_pipe = (\<lambda>source bufsize. chunks)\<rparr>"






text \<open>A part upload that ran under no limit, or any other event.\<close>

fun untimed :: "event \<Rightarrow> bool" where
  "untimed (UploadPart mp i c (Some t) ok) = False"
| "untimed _ = True"


subsection \<open>put\_from\_manifest (lines 124 to 150)\<close>

text \<open>\<open>str.splitlines\<close> on a byte string: lines end at LF, CR or CR LF.\<close>

fun splitlines_from :: "string \<Rightarrow> string \<Rightarrow> string list" where
  "splitlines_from cur [] = (if cur = [] then [] else [rev cur])"
| "splitlines_from cur (c # cs) =
     (if c = CHR 0x0A then rev cur # splitlines_from [] cs
      else if c = CHR 0x0D then
        (case cs of
           [] \<Rightarrow> [rev cur]
         | d # ds \<Rightarrow> if d = CHR 0x0A then rev cur # splitlines_from [] ds
                     else rev cur # splitlines_from [] cs)
      else splitlines_from (c # cur) cs)"

definition splitlines :: "string \<Rightarrow> string list" where
  "splitlines s = splitlines_from [] s"

datatype job_event = TaskResult bool | PoolTerminate | Remove string bool

datatype status = Exit nat | Raised exn

text \<open>
  The loop over \<open>pool.imap(upload_file, ...)\<close> (lines 141 to 145), which yields the
  tasks' results in the order of the manifest and raises what a task raised. The first
  component is \<open>exit_code\<close> when the loop ends.
\<close>

fun observe_results :: "(exn + bool) list \<Rightarrow> (exn + nat) \<times> job_event list" where
  "observe_results [] = (Inr 0, [])"
| "observe_results (Inl e # rets) = (Inl e, [])"
| "observe_results (Inr ret # rets) =
     (if \<not> ret then (Inr 1, [TaskResult False])
      else case observe_results rets of (x, evs) \<Rightarrow> (x, TaskResult True # evs))"

text \<open>
  The loop \<open>for f in files: os.remove(f)\<close> (lines 148 and 149) on a disk given as the
  set of the paths of its files; \<open>os.remove\<close> raises OSError on a path that names no
  file.
\<close>

fun remove_files :: "string list \<Rightarrow> string set \<Rightarrow> (exn + unit) \<times> job_event list \<times> string set" where
  "remove_files [] disk = (Inr (), [], disk)"
| "remove_files (f # fs) disk =
     (if f \<in> disk then
        (case remove_files fs (disk - {f}) of (x, evs, disk') \<Rightarrow> (x, Remove f True # evs, disk'))
      else (Inl OSError, [Remove f False], disk))"

text \<open>
  The result of the task of the line \<open>i\<close> of the manifest, run against its own store
  \<open>remotes i\<close>. \<open>map_wrap\<close> (utils.py) only unpacks the argument tuple.
\<close>

definition task_result :: "(nat \<Rightarrow> remote) \<Rightarrow> bool \<Rightarrow> string \<Rightarrow> nat \<Rightarrow> nat \<times> string \<Rightarrow> exn + bool" where
  "task_result remotes s3_ssenc s3_base_path buffer_size task =
     (case task of (i, f) \<Rightarrow>
        fst (upload_file (remotes i) f (destination_path s3_base_path f True) s3_ssenc buffer_size))"

text \<open>
  \<open>manifest\<close> is the text of the manifest file and \<open>disk\<close> the local files. The
  result is how the call ends (\<open>exit(exit_code)\<close>, or an exception that leaves it), what
  it did, and the disk it leaves. The connection arguments and \<open>concurrency\<close> do not
  change the results that the loop observes and are left out.
\<close>

definition put_from_manifest ::
  "(nat \<Rightarrow> remote) \<Rightarrow> bool \<Rightarrow> string \<Rightarrow> string \<Rightarrow> nat \<Rightarrow> bool \<Rightarrow> string set
     \<Rightarrow> status \<times> job_event list \<times> string set" where
  "put_from_manifest remotes s3_ssenc s3_base_path manifest bufsize incremental_backups disk =
     (let buffer_size = bufsize * MBFACTOR;
          files = splitlines manifest;
          rets = map (task_result remotes s3_ssenc s3_base_path buffer_size) (enumerate 0 files)
      in case observe_results rets of
           (Inl e, evs) \<Rightarrow> (Raised e, evs, disk)
         | (Inr exit_code, evs) \<Rightarrow>
             if incremental_backups then
               (case remove_files files disk of
                  (Inl e, evs', disk') \<Rightarrow> (Raised e, evs @ [PoolTerminate] @ evs', disk')
                | (Inr u, evs', disk') \<Rightarrow> (Exit exit_code, evs @ [PoolTerminate] @ evs', disk'))
             else (Exit exit_code, evs @ [PoolTerminate], disk))"

subsection \<open>create\_upload\_manifest (lines 153 to 196)\<close>

text \<open>Python's string operations, as the function uses them.\<close>

fun join_str :: "string \<Rightarrow> string list \<Rightarrow> string" where
  "join_str sep [] = []"
| "join_str sep [x] = x"
| "join_str sep (x # y # ys) = x @ sep @ join_str sep (y # ys)"

fun split_char :: "char \<Rightarrow> string \<Rightarrow> string list" where
  "split_char sep [] = [[]]"
| "split_char sep (c # cs) =
     (if c = sep then [] # split_char sep cs
      else (case split_char sep cs of
              [] \<Rightarrow> [[c]]
            | w # ws \<Rightarrow> (c # w) # ws))"

definition is_space :: "char \<Rightarrow> bool" where
  "is_space c = (c \<in> set [CHR 0x20, CHR 0x09, CHR 0x0A, CHR 0x0B, CHR 0x0C, CHR 0x0D])"

definition strip :: "string \<Rightarrow> string" where
  "strip s = rev (dropWhile is_space (rev (dropWhile is_space s)))"

fun split_ws_from :: "string \<Rightarrow> string \<Rightarrow> string list" where
  "split_ws_from cur [] = (if cur = [] then [] else [rev cur])"
| "split_ws_from cur (c # cs) =
     (if is_space c then
        (if cur = [] then split_ws_from [] cs else rev cur # split_ws_from [] cs)
      else split_ws_from (c # cur) cs)"

definition split_ws :: "string \<Rightarrow> string list" where
  "split_ws s = split_ws_from [] s"

text \<open>\<open>os.path.join\<close> of posixpath.\<close>

definition join_step :: "string \<Rightarrow> string \<Rightarrow> string" where
  "join_step path b =
     (if take 1 b = ''/'' then b
      else if path = [] \<or> last path = CHR ''/'' then path @ b
      else path @ ''/'' @ b)"

fun os_path_join :: "string list \<Rightarrow> string" where
  "os_path_join [] = []"
| "os_path_join (a # p) = foldl join_step a p"

text \<open>
  \<open>get_data_path\<close> reads \<open>data_file_directories\<close> from the file cassandra.yaml of the
  configuration directory; \<open>config\<close> gives that list for the path of the file, and
  \<open>glob\<close> the matches of a pattern (\<open>glob.glob\<close>).
\<close>

definition get_data_path :: "(string \<Rightarrow> string list) \<Rightarrow> string \<Rightarrow> string list" where
  "get_data_path config conf_path = config (os_path_join [conf_path, ''cassandra.yaml''])"

definition keyspace_globs_of :: "string \<Rightarrow> string list" where
  "keyspace_globs_of snapshot_keyspaces =
     (if snapshot_keyspaces \<noteq> [] then split_ws snapshot_keyspaces else [''*''])"

definition table_glob_of :: "string \<Rightarrow> string" where
  "table_glob_of snapshot_table = (if snapshot_table \<noteq> [] then snapshot_table else ''*'')"

text \<open>The pattern of one data path and one keyspace pattern (lines 180 to 191).\<close>

definition snapshot_pattern :: "string \<Rightarrow> string \<Rightarrow> string \<Rightarrow> bool \<Rightarrow> string \<Rightarrow> string" where
  "snapshot_pattern snapshot_name snapshot_table data_path incremental_backups keyspace_glob =
     os_path_join
       ([data_path, keyspace_glob, table_glob_of snapshot_table]
        @ (if incremental_backups then [''backups''] else [''snapshots'', snapshot_name])
        @ [''*''])"

text \<open>What one pattern adds to \<open>files\<close> (lines 192 and 193).\<close>

definition glob_entries :: "(string \<Rightarrow> string list) \<Rightarrow> string \<Rightarrow> string list" where
  "glob_entries glob path =
     (let glob_results = join_str [CHR 0x0A] (glob path)
      in map strip (split_char (CHR 0x0A) glob_results))"

definition manifest_files ::
  "(string \<Rightarrow> string list) \<Rightarrow> (string \<Rightarrow> string list) \<Rightarrow> string \<Rightarrow> string \<Rightarrow> string \<Rightarrow> string
     \<Rightarrow> bool \<Rightarrow> string list" where
  "manifest_files config glob snapshot_name snapshot_keyspaces snapshot_table conf_path
     incremental_backups =
     concat (map (\<lambda>data_path.
       concat (map (\<lambda>keyspace_glob.
         glob_entries glob
           (snapshot_pattern snapshot_name snapshot_table data_path incremental_backups
              keyspace_glob))
         (keyspace_globs_of snapshot_keyspaces)))
       (get_data_path config conf_path))"

text \<open>The text that the function writes to the file \<open>manifest_path\<close>.\<close>

definition create_upload_manifest ::
  "(string \<Rightarrow> string list) \<Rightarrow> (string \<Rightarrow> string list) \<Rightarrow> string \<Rightarrow> string \<Rightarrow> string \<Rightarrow> string
     \<Rightarrow> bool \<Rightarrow> string" where
  "create_upload_manifest config glob snapshot_name snapshot_keyspaces snapshot_table conf_path
     incremental_backups =
     join_str [CHR 0x0A]
       (manifest_files config glob snapshot_name snapshot_keyspaces snapshot_table conf_path
          incremental_backups)"

text \<open>
  A configuration with two data directories, of which only the second holds a file of the
  snapshot \<open>s1\<close>.
\<close>

definition two_data_paths :: "string \<Rightarrow> string list" where
  "two_data_paths path = [''/d1'', ''/d2'']"

definition one_snapshot_file :: "string \<Rightarrow> string list" where
  "one_snapshot_file pattern =
     (if pattern = ''/d2/*/*/snapshots/s1/*'' then [''/d2/ks/t/snapshots/s1/a.db''] else [])"

subsection \<open>Stores and inputs of the examples\<close>




text \<open>
  A store where \<open>complete_upload\<close> and \<open>mp.to_xml()\<close> raise, and stores for a
  job whose first task fails on every attempt.
\<close>

definition to_xml_raises :: remote where
  "to_xml_raises =
     (flaky 0 [''c''])\<lparr>complete_ok := (\<lambda>tr. False), to_xml_ok := (\<lambda>tr. False)\<rparr>"

definition first_task_fails :: "nat \<Rightarrow> remote" where
  "first_task_fails i = (if i = 0 then flaky 4 [''c''] else flaky 0 [''c''])"

section \<open>Properties\<close>

subsection \<open>Cancellation\<close>

lemma cancel_only_cleanup: "list_all is_cancel evs \<Longrightarrow> list_all is_cleanup evs"
  by (induction evs) (auto elim: is_cancel.elims)

lemma cancel_no_sleep: "list_all is_cancel evs \<Longrightarrow> filter is_sleep evs = []"
  by (induction evs) (auto elim: is_cancel.elims)

lemma cancel_no_listing: "list_all is_cancel evs \<Longrightarrow> filter is_listing evs = []"
  by (induction evs) (auto elim: is_cancel.elims)

lemma cancel_listed_ext:
  "\<exists>evs. snd (snd (cancel_listed r p mp found tr)) = tr @ evs \<and> list_all is_cancel evs"
proof (induction found arbitrary: mp tr)
  case Nil
  then show ?case by simp
next
  case (Cons a found)
  obtain k m where a: "a = (k, m)" by (cases a)
  show ?case
  proof (cases "k = p \<and> cancel_ok r tr")
    case True
    from Cons.IH[of m "tr @ [Cancel m True]"] obtain evs where
      "snd (snd (cancel_listed r p m found (tr @ [Cancel m True]))) = (tr @ [Cancel m True]) @ evs"
      "list_all is_cancel evs" by blast
    then show ?thesis using True a by (intro exI[of _ "Cancel m True # evs"]) simp
  next
    case False
    then show ?thesis using a Cons.IH[of m tr] by (cases "k = p") auto
  qed
qed

lemma cancel_attempt_ext:
  "\<exists>b evs. snd (snd (cancel_attempt r p mp tr)) = tr @ [Sleep SLEEP_TIME, Cancel mp b] @ evs
      \<and> list_all is_cleanup evs
      \<and> length (filter is_sleep evs) \<le> 1 \<and> length (filter is_listing evs) \<le> 1"
proof (cases "cancel_ok r (tr @ [Sleep SLEEP_TIME])")
  case False
  then show ?thesis
    by (intro exI[of _ False] exI[of _ "[]"]) (simp add: cancel_attempt_def)
next
  case True
  let ?tr2 = "tr @ [Sleep SLEEP_TIME, Cancel mp True, Sleep SLEEP_TIME]"
  let ?found = "fst (listing r ?tr2)" and ?broken = "snd (listing r ?tr2)"
  let ?tr3 = "?tr2 @ [ListUploads ?found ?broken]"
  obtain evs where evs: "snd (snd (cancel_listed r p mp ?found ?tr3)) = ?tr3 @ evs"
    "list_all is_cancel evs"
    using cancel_listed_ext by blast
  obtain x mp' tr4 where cl: "cancel_listed r p mp ?found ?tr3 = (x, mp', tr4)"
    by (cases "cancel_listed r p mp ?found ?tr3") auto
  have "snd (snd (cancel_attempt r p mp tr)) = tr4"
    using True cl by (cases x) (simp_all add: cancel_attempt_def Let_def)
  then have "snd (snd (cancel_attempt r p mp tr)) = ?tr3 @ evs"
    using evs(1) cl by simp
  then show ?thesis
    using cancel_only_cleanup[OF evs(2)] cancel_no_sleep[OF evs(2)] cancel_no_listing[OF evs(2)]
    by (intro exI[of _ True] exI[of _ "[Sleep SLEEP_TIME, ListUploads ?found ?broken] @ evs"])
       simp
qed

lemma cancel_upload_loop_spec:
  "\<exists>evs. cancel_upload_loop r p mp attempts tr = (Inr (), tr @ evs)
      \<and> list_all is_cleanup evs
      \<and> length (filter is_sleep evs) \<le> 2 * (5 - attempts)
      \<and> length (filter is_listing evs) \<le> 5 - attempts"
proof (induction r p mp attempts tr rule: cancel_upload_loop.induct)
  case (1 r p mp attempts tr)
  show ?case
  proof (cases "attempts < 5")
    case False
    then show ?thesis by (simp add: cancel_upload_loop.simps)
  next
    case True
    obtain x mp' tr' where ca: "cancel_attempt r p mp tr = (x, mp', tr')"
      by (cases "cancel_attempt r p mp tr") auto
    obtain b evs where evs: "tr' = tr @ [Sleep SLEEP_TIME, Cancel mp b] @ evs"
      "list_all is_cleanup evs" "length (filter is_sleep evs) \<le> 1"
      "length (filter is_listing evs) \<le> 1"
      using cancel_attempt_ext[of r p mp tr] ca by auto
    show ?thesis
    proof (cases x)
      case (Inr u)
      have "cancel_upload_loop r p mp attempts tr = (Inr (), tr')"
        using True ca Inr by (simp add: cancel_upload_loop.simps)
      then show ?thesis using evs True
        by (intro exI[of _ "[Sleep SLEEP_TIME, Cancel mp b] @ evs"]) auto
    next
      case (Inl e)
      from "1.IH"[of x "(mp', tr')" e mp' tr'] True ca Inl obtain evs' where evs':
        "cancel_upload_loop r p mp' (attempts + 1) tr' = (Inr (), tr' @ evs')"
        "list_all is_cleanup evs'"
        "length (filter is_sleep evs') \<le> 2 * (5 - (attempts + 1))"
        "length (filter is_listing evs') \<le> 5 - (attempts + 1)"
        by auto
      have "cancel_upload_loop r p mp attempts tr = (Inr (), tr' @ evs')"
        using True ca Inl evs'(1) by (simp add: cancel_upload_loop.simps)
      then show ?thesis using evs evs' True
        by (intro exI[of _ "[Sleep SLEEP_TIME, Cancel mp b] @ evs @ evs'"]) auto
    qed
  qed
qed

lemma cancel_upload_loop_starts:
  assumes "attempts < 5"
  shows "\<exists>b evs. cancel_upload_loop r p mp attempts tr
            = (Inr (), tr @ [Sleep SLEEP_TIME, Cancel mp b] @ evs) \<and> list_all is_cleanup evs"
proof -
  obtain x mp' tr' where ca: "cancel_attempt r p mp tr = (x, mp', tr')"
    by (cases "cancel_attempt r p mp tr") auto
  obtain b evs where evs: "tr' = tr @ [Sleep SLEEP_TIME, Cancel mp b] @ evs"
    "list_all is_cleanup evs"
    using cancel_attempt_ext[of r p mp tr] ca by auto
  show ?thesis
  proof (cases x)
    case (Inr u)
    have "cancel_upload_loop r p mp attempts tr = (Inr (), tr')"
      using assms ca Inr by (simp add: cancel_upload_loop.simps)
    then show ?thesis using evs by blast
  next
    case (Inl e)
    obtain evs' where evs': "cancel_upload_loop r p mp' (attempts + 1) tr' = (Inr (), tr' @ evs')"
      "list_all is_cleanup evs'"
      using cancel_upload_loop_spec[of r p mp' "attempts + 1" tr'] by blast
    have "cancel_upload_loop r p mp attempts tr = (Inr (), tr' @ evs')"
      using assms ca Inl evs'(1) by (simp add: cancel_upload_loop.simps)
    then show ?thesis using evs evs'(2)
      by (intro exI[of _ b] exI[of _ "evs @ evs'"]) simp
  qed
qed










subsection \<open>One pass of the upload loop\<close>

lemma upload_parts_ok_shape:
  "upload_parts r mp ics tr = (Inr u, tr2) \<Longrightarrow> tr2 = tr @ ok_parts mp ics"
proof (induction ics arbitrary: tr)
  case Nil
  then show ?case by (simp add: ok_parts_def)
next
  case (Cons a ics)
  obtain i c where a: "a = (i, c)" by (cases a)
  show ?case
  proof (cases "part_ok r tr")
    case True
    then have "upload_parts r mp ics (tr @ [UploadPart mp (i + 1) c None True]) = (Inr u, tr2)"
      using Cons.prems a by simp
    from Cons.IH[OF this] show ?thesis using a by (simp add: ok_parts_def)
  next
    case False
    then show ?thesis using Cons.prems a by simp
  qed
qed

lemma upload_parts_fail_shape:
  "upload_parts r mp ics tr = (Inl x, tr2) \<Longrightarrow>
     \<exists>n. n < length ics \<and>
       tr2 = tr @ ok_parts mp (take n ics) @ [UploadPart mp (fst (ics ! n) + 1) (snd (ics ! n)) None False]"
proof (induction ics arbitrary: tr)
  case Nil
  then show ?case by simp
next
  case (Cons a ics)
  obtain i c where a: "a = (i, c)" by (cases a)
  show ?case
  proof (cases "part_ok r tr")
    case True
    then have "upload_parts r mp ics (tr @ [UploadPart mp (i + 1) c None True]) = (Inl x, tr2)"
      using Cons.prems a by simp
    from Cons.IH[OF this] obtain n where n: "n < length ics"
      "tr2 = (tr @ [UploadPart mp (i + 1) c None True]) @ ok_parts mp (take n ics)
          @ [UploadPart mp (fst (ics ! n) + 1) (snd (ics ! n)) None False]" by blast
    show ?thesis using n a by (intro exI[of _ "Suc n"]) (simp add: ok_parts_def)
  next
    case False
    then have "tr2 = tr @ [UploadPart mp (i + 1) c None False]" using Cons.prems a by simp
    then show ?thesis using a by (intro exI[of _ 0]) (simp add: ok_parts_def)
  qed
qed

lemma ok_parts_are_parts: "list_all is_part (ok_parts mp ics)"
  by (induction ics) (auto simp: ok_parts_def)

lemma upload_parts_ext:
  "\<exists>evs. snd (upload_parts r mp ics tr) = tr @ evs \<and> list_all is_part evs"
proof (cases "upload_parts r mp ics tr")
  case (Pair x tr2)
  show ?thesis
  proof (cases x)
    case (Inl e)
    from upload_parts_fail_shape[OF Pair[unfolded Inl]] show ?thesis
      using Pair ok_parts_are_parts[of mp] by auto
  next
    case (Inr u)
    from upload_parts_ok_shape[OF Pair[unfolded Inr]] show ?thesis
      using Pair ok_parts_are_parts[of mp] by auto
  qed
qed

lemma cancel_and_fail_spec:
  "\<exists>b evs. cancel_and_fail r mp d tr = (Inr False, tr @ [Sleep SLEEP_TIME, Cancel mp b] @ evs)
      \<and> list_all is_cleanup evs"
proof -
  obtain b evs where "cancel_upload_loop r d mp 0 tr = (Inr (), tr @ [Sleep SLEEP_TIME, Cancel mp b] @ evs)"
    "list_all is_cleanup evs"
    using cancel_upload_loop_starts[of 0 r d mp tr] by auto
  then show ?thesis by (auto simp: cancel_and_fail_def cancel_upload_def)
qed

text \<open>The five ways through one pass of the loop of \<open>upload_file\<close>.\<close>

lemma loop_initiate_fails:
  "\<not> initiate_ok r tr \<Longrightarrow>
     upload_file_loop r s d e bs k tr = (Inr False, tr @ [Initiate d e None])"
  by (simp add: upload_file_loop.simps)

lemma loop_retry:
  assumes "initiate_ok r tr"
    and "upload_parts r (length tr) (enumerate 0 (compressed_pipe r s bs))
           (tr @ [Initiate d e (Some (length tr))]) = (Inl x, tr2)"
    and "k < MAX_RETRY_COUNT"
  shows "upload_file_loop r s d e bs k tr
           = upload_file_loop r s d e bs (k + 1) (tr2 @ [Sleep SLEEP_TIME])"
  using assms by (subst upload_file_loop.simps) (simp add: Let_def)

lemma loop_gives_up:
  assumes "initiate_ok r tr"
    and "upload_parts r (length tr) (enumerate 0 (compressed_pipe r s bs))
           (tr @ [Initiate d e (Some (length tr))]) = (Inl x, tr2)"
    and "MAX_RETRY_COUNT \<le> k"
  shows "upload_file_loop r s d e bs k tr = cancel_and_fail r (length tr) d tr2"
  using assms by (subst upload_file_loop.simps) (simp add: Let_def)

lemma loop_completes:
  assumes "initiate_ok r tr"
    and "upload_parts r (length tr) (enumerate 0 (compressed_pipe r s bs))
           (tr @ [Initiate d e (Some (length tr))]) = (Inr u, tr2)"
    and "complete_ok r tr2"
  shows "upload_file_loop r s d e bs k tr = (Inr True, tr2 @ [Complete (length tr) True])"
  using assms by (subst upload_file_loop.simps) (simp add: Let_def)

lemma loop_complete_fails:
  assumes "initiate_ok r tr"
    and "upload_parts r (length tr) (enumerate 0 (compressed_pipe r s bs))
           (tr @ [Initiate d e (Some (length tr))]) = (Inr u, tr2)"
    and "\<not> complete_ok r tr2"
    and "to_xml_ok r (tr2 @ [Complete (length tr) False])"
  shows "upload_file_loop r s d e bs k tr
           = cancel_and_fail r (length tr) d
               (tr2 @ [Complete (length tr) False, ToXml (length tr) True])"
  using assms by (subst upload_file_loop.simps) (simp add: Let_def)

lemma loop_to_xml_raises:
  assumes "initiate_ok r tr"
    and "upload_parts r (length tr) (enumerate 0 (compressed_pipe r s bs))
           (tr @ [Initiate d e (Some (length tr))]) = (Inr u, tr2)"
    and "\<not> complete_ok r tr2"
    and "\<not> to_xml_ok r (tr2 @ [Complete (length tr) False])"
  shows "upload_file_loop r s d e bs k tr
           = (Inl S3ResponseError,
              tr2 @ [Complete (length tr) False, ToXml (length tr) False])"
  using assms by (subst upload_file_loop.simps) (simp add: Let_def)

text \<open>
  What a pass does after its part uploads: it is retried, or the task ends in one of four
  ways.
\<close>

lemma pass_cases:
  assumes "initiate_ok r tr"
    and "upload_parts r (length tr) (enumerate 0 (compressed_pipe r s bs))
           (tr @ [Initiate d e (Some (length tr))]) = (x, tr2)"
  obtains (retry) exc where "x = Inl exc" "k < MAX_RETRY_COUNT"
      "upload_file_loop r s d e bs k tr
         = upload_file_loop r s d e bs (k + 1) (tr2 @ [Sleep SLEEP_TIME])"
  | (gives_up) exc b evs where "x = Inl exc" "MAX_RETRY_COUNT \<le> k"
      "upload_file_loop r s d e bs k tr
         = (Inr False, tr2 @ [Sleep SLEEP_TIME, Cancel (length tr) b] @ evs)"
      "list_all is_cleanup evs"
  | (completes) u where "x = Inr u"
      "upload_file_loop r s d e bs k tr = (Inr True, tr2 @ [Complete (length tr) True])"
  | (cancels) u b evs where "x = Inr u"
      "upload_file_loop r s d e bs k tr
         = (Inr False,
            tr2 @ [Complete (length tr) False, ToXml (length tr) True,
                   Sleep SLEEP_TIME, Cancel (length tr) b] @ evs)"
      "list_all is_cleanup evs"
  | (raises) u where "x = Inr u"
      "upload_file_loop r s d e bs k tr
         = (Inl S3ResponseError, tr2 @ [Complete (length tr) False, ToXml (length tr) False])"
proof (cases x)
  case (Inl exc)
  show ?thesis
  proof (cases "k < MAX_RETRY_COUNT")
    case True
    then show ?thesis using retry[OF Inl True] loop_retry[OF assms(1) assms(2)[unfolded Inl]] by simp
  next
    case False
    then have ge: "MAX_RETRY_COUNT \<le> k" by simp
    from loop_gives_up[OF assms(1) assms(2)[unfolded Inl] ge]
      cancel_and_fail_spec[of r "length tr" d tr2]
    obtain b evs where "upload_file_loop r s d e bs k tr
         = (Inr False, tr2 @ [Sleep SLEEP_TIME, Cancel (length tr) b] @ evs)"
      "list_all is_cleanup evs" by auto
    then show ?thesis using gives_up[OF Inl ge] by blast
  qed
next
  case (Inr u)
  show ?thesis
  proof (cases "complete_ok r tr2")
    case True
    from loop_completes[OF assms(1) assms(2)[unfolded Inr] True] show ?thesis
      using completes[OF Inr] by simp
  next
    case False
    show ?thesis
    proof (cases "to_xml_ok r (tr2 @ [Complete (length tr) False])")
      case x: True
      from loop_complete_fails[OF assms(1) assms(2)[unfolded Inr] False x]
        cancel_and_fail_spec[of r "length tr" d
          "tr2 @ [Complete (length tr) False, ToXml (length tr) True]"]
      obtain b evs where "upload_file_loop r s d e bs k tr
         = (Inr False,
            tr2 @ [Complete (length tr) False, ToXml (length tr) True,
                   Sleep SLEEP_TIME, Cancel (length tr) b] @ evs)"
        "list_all is_cleanup evs" by auto
      then show ?thesis using cancels[OF Inr] by blast
    next
      case x: False
      from loop_to_xml_raises[OF assms(1) assms(2)[unfolded Inr] False x] show ?thesis
        using raises[OF Inr] by simp
    qed
  qed
qed



subsection \<open>Cancellation never fails the task\<close>



subsection \<open>Failures of initiation and of completion\<close>

lemma parts_not_other:
  assumes "list_all is_part evs"
  shows "filter is_cancel evs = []" "filter is_complete evs = []" "filter is_initiate evs = []"
  using assms by (induction evs; auto elim: is_part.elims)+

lemma cleanup_not_other:
  assumes "list_all is_cleanup evs"
  shows "filter is_complete evs = []" "filter is_initiate evs = []" "filter is_part evs = []"
  using assms by (induction evs; auto elim: is_cleanup.elims)+

lemma not_initiate_not_mem: "filter is_initiate evs = [] \<Longrightarrow> Initiate d e x \<notin> set evs"
  by (induction evs) (auto split: if_splits)

lemma initiate_failure_ends_loop:
  assumes "filter is_cancel tr = []" and "Initiate d e None \<notin> set tr"
    and "upload_file_loop r s d e bs k tr = (res, T)"
    and "Initiate d e None \<in> set T"
  shows "res = Inr False \<and>
         (\<exists>pre. T = pre @ [Initiate d e None] \<and> filter is_cancel pre = []
                \<and> Initiate d e None \<notin> set pre)"
  using assms
proof (induction "MAX_RETRY_COUNT - k" arbitrary: k tr rule: less_induct)
  case less
  show ?case
  proof (cases "initiate_ok r tr")
    case False
    then show ?thesis using less.prems by (auto simp: loop_initiate_fails)
  next
    case True
    let ?tr1 = "tr @ [Initiate d e (Some (length tr))]"
    obtain x tr2 where up: "upload_parts r (length tr) (enumerate 0 (compressed_pipe r s bs)) ?tr1 = (x, tr2)"
      by (cases "upload_parts r (length tr) (enumerate 0 (compressed_pipe r s bs)) ?tr1") auto
    obtain evs where evs: "tr2 = ?tr1 @ evs" "list_all is_part evs"
      using upload_parts_ext[of r "length tr" "enumerate 0 (compressed_pipe r s bs)" ?tr1] up by auto
    have clean2: "filter is_cancel tr2 = []" "Initiate d e None \<notin> set tr2"
      using evs less.prems(1,2) parts_not_other[OF evs(2)] not_initiate_not_mem[of evs d e None]
      by auto
    from True up show ?thesis
    proof (cases rule: pass_cases[where k = k])
      case (retry exc)
      have m: "MAX_RETRY_COUNT - (k + 1) < MAX_RETRY_COUNT - k" using retry(2) by simp
      have eq: "upload_file_loop r s d e bs (k + 1) (tr2 @ [Sleep SLEEP_TIME]) = (res, T)"
        using retry(3) less.prems(3) by simp
      show ?thesis
        by (rule less.hyps[OF m _ _ eq less.prems(4)]) (use clean2 in auto)
    next
      case (gives_up exc b evs')
      then have "T = tr2 @ [Sleep SLEEP_TIME, Cancel (length tr) b] @ evs'"
        using less.prems(3) by simp
      then have False
        using less.prems(4) clean2(2) cleanup_not_other(2)[OF gives_up(4)]
          not_initiate_not_mem[of evs' d e None] by auto
      then show ?thesis ..
    next
      case (completes u)
      then have "T = tr2 @ [Complete (length tr) True]" using less.prems(3) by simp
      then have False using less.prems(4) clean2(2) by auto
      then show ?thesis ..
    next
      case (cancels u b evs')
      then have "T = tr2 @ [Complete (length tr) False, ToXml (length tr) True,
                   Sleep SLEEP_TIME, Cancel (length tr) b] @ evs'"
        using less.prems(3) by simp
      then have False
        using less.prems(4) clean2(2) cleanup_not_other(2)[OF cancels(3)]
          not_initiate_not_mem[of evs' d e None] by auto
      then show ?thesis ..
    next
      case (raises u)
      then have "T = tr2 @ [Complete (length tr) False, ToXml (length tr) False]"
        using less.prems(3) by simp
      then have False using less.prems(4) clean2(2) by auto
      then show ?thesis ..
    qed
  qed
qed

text \<open>
  C7. When a call of \<open>initiate_multipart_upload\<close> raises, in the first pass or in a
  later one, the task returns \<open>False\<close> at once: the failed initiation is the last
  event of the task, it is the only failed initiation (none is retried), and the task has
  called no cancellation.
\<close>

theorem initiate_failure_is_final:
  assumes "upload_file r source destination s3_ssenc bufsize = (res, T)"
    and "Initiate destination s3_ssenc None \<in> set T"
  shows "res = Inr False
         \<and> last T = Initiate destination s3_ssenc None
         \<and> length (filter (\<lambda>ev. ev = Initiate destination s3_ssenc None) T) = 1
         \<and> filter is_cancel T = []"
proof -
  have "upload_file_loop r source destination s3_ssenc bufsize 0 [] = (res, T)"
    using assms(1) by (simp add: upload_file_def)
  from initiate_failure_ends_loop[OF _ _ this assms(2)]
  obtain pre where pre: "res = Inr False" "T = pre @ [Initiate destination s3_ssenc None]"
    "filter is_cancel pre = []" "Initiate destination s3_ssenc None \<notin> set pre"
    by auto
  have "filter (\<lambda>ev. ev = Initiate destination s3_ssenc None) pre = []"
    using pre(4) by (induction pre) auto
  then show ?thesis using pre by simp
qed

theorem initiate_failure_is_final_witness:
  "upload_file ((flaky 1 [''c''])\<lparr>initiate_ok := (\<lambda>tr. length tr < 3)\<rparr>) ''f'' ''base/f.lzo'' True 64
     = (Inr False,
        [Initiate ''base/f.lzo'' True (Some 0), UploadPart 0 1 ''c'' None False, Sleep 2,
         Initiate ''base/f.lzo'' True None])
   \<and> filter is_cancel
        (snd (upload_file ((flaky 1 [''c''])\<lparr>initiate_ok := (\<lambda>tr. length tr < 3)\<rparr>)
                ''f'' ''base/f.lzo'' True 64)) = []"
proof -
  let ?r = "(flaky 1 [''c''])\<lparr>initiate_ok := (\<lambda>tr. length tr < 3)\<rparr>"
  let ?T = "[Initiate ''base/f.lzo'' True (Some 0), UploadPart 0 1 ''c'' None False, Sleep 2,
         Initiate ''base/f.lzo'' True None]"
  have run: "upload_file ?r ''f'' ''base/f.lzo'' True 64 = (Inr False, ?T)"
    by code_simp
  have "Initiate ''base/f.lzo'' True None \<in> set ?T" by simp
  from initiate_failure_is_final[OF run this] show ?thesis using run by simp
qed

text \<open>
  C8 fails on the code. When \<open>complete_upload\<close> raises and the \<open>mp.to_xml()\<close> of
  line 91 raises too, the exception leaves \<open>upload_file\<close>: the task cancels nothing and
  does not return \<open>False\<close>.
\<close>

theorem failed_completion_escapes_at_to_xml:
  "upload_file
     ((flaky 0 [''c1'', ''c2''])\<lparr>complete_ok := (\<lambda>tr. False), to_xml_ok := (\<lambda>tr. False)\<rparr>)
     ''f'' ''base/f.lzo'' False 64
     = (Inl S3ResponseError,
        [Initiate ''base/f.lzo'' False (Some 0), UploadPart 0 1 ''c1'' None True,
         UploadPart 0 2 ''c2'' None True, Complete 0 False, ToXml 0 False])
   \<and> filter is_cancel
        (snd (upload_file
           ((flaky 0 [''c1'', ''c2''])\<lparr>complete_ok := (\<lambda>tr. False), to_xml_ok := (\<lambda>tr. False)\<rparr>)
           ''f'' ''base/f.lzo'' False 64)) = []"
  by code_simp

subsection \<open>Retries\<close>




lemma next_part_snoc:
  "next_part (t @ [ev]) = (if is_part ev then Suc (next_part t) else 1)"
  by (simp add: next_part_def)

lemma ok_parts_none_failed: "filter is_failed_part (ok_parts mp ics) = []"
  by (induction ics) (auto simp: ok_parts_def)

lemma cleanup_not_part_at: "list_all is_cleanup evs \<Longrightarrow> filter (is_part_at i) evs = []"
  by (induction evs) (auto elim: is_cleanup.elims)

lemma count_part_at_ok:
  "length (filter (is_part_at j) (ok_parts mp (enumerate n cs)))
     = (if n < j \<and> j \<le> n + length cs then 1 else 0)"
proof (induction cs arbitrary: n)
  case Nil
  then show ?case by (simp add: ok_parts_def)
next
  case (Cons c cs)
  have step: "ok_parts mp (enumerate n (c # cs))
      = UploadPart mp (n + 1) c None True # ok_parts mp (enumerate (Suc n) cs)"
    by (simp add: ok_parts_def)
  show ?case unfolding step using Cons.IH[of "Suc n"] by auto
qed

lemma upload_parts_recovered:
  assumes "\<And>t. part_ok r t = (next_part t \<noteq> j \<or> M \<le> length (filter is_failed_part t))"
    and "M \<le> length (filter is_failed_part tr)"
  shows "upload_parts r mp ics tr = (Inr (), tr @ ok_parts mp ics)"
  using assms(2)
proof (induction ics arbitrary: tr)
  case Nil
  then show ?case by (simp add: ok_parts_def)
next
  case (Cons a ics)
  obtain i c where a: "a = (i, c)" by (cases a)
  have "M \<le> length (filter is_failed_part (tr @ [UploadPart mp (i + 1) c None True]))"
    using Cons.prems by simp
  from Cons.IH[OF this] show ?case using a Cons.prems assms(1) by (simp add: ok_parts_def)
qed

lemma upload_parts_chunk_fails:
  assumes "\<And>t. part_ok r t = (next_part t \<noteq> j \<or> M \<le> length (filter is_failed_part t))"
    and "length (filter is_failed_part tr) < M"
    and "next_part tr = n + 1" and "n < j" and "j \<le> n + length cs"
  shows "upload_parts r mp (enumerate n cs) tr
     = (Inl S3ResponseError,
        tr @ ok_parts mp (enumerate n (take (j - 1 - n) cs))
           @ [UploadPart mp j (cs ! (j - 1 - n)) None False])"
  using assms(2-5)
proof (induction cs arbitrary: n tr)
  case Nil
  then show ?case by simp
next
  case (Cons c cs)
  show ?case
  proof (cases "j = n + 1")
    case True
    then have "\<not> part_ok r tr" using assms(1) Cons.prems by simp
    then show ?thesis using True by (simp add: ok_parts_def)
  next
    case False
    then have lt: "Suc n < j" using Cons.prems(3) by simp
    have ok: "part_ok r tr" using assms(1) Cons.prems(2) False by simp
    let ?tr = "tr @ [UploadPart mp (n + 1) c None True]"
    have "upload_parts r mp (enumerate (Suc n) cs) ?tr
      = (Inl S3ResponseError,
         ?tr @ ok_parts mp (enumerate (Suc n) (take (j - 1 - Suc n) cs))
             @ [UploadPart mp j (cs ! (j - 1 - Suc n)) None False])"
      using Cons.prems lt by (intro Cons.IH) (simp_all add: next_part_snoc)
    moreover have pos: "j - 1 - n = Suc (j - 1 - Suc n)" using lt by arith
    moreover have "take (j - 1 - n) (c # cs) = c # take (j - 1 - Suc n) cs"
      unfolding pos by simp
    moreover have "(c # cs) ! (j - 1 - n) = cs ! (j - 1 - Suc n)"
      unfolding pos by simp
    ultimately show ?thesis using ok by (simp add: ok_parts_def)
  qed
qed

lemma chunk_fails_loop:
  assumes init: "\<And>t. initiate_ok r t" and compl: "\<And>t. complete_ok r t"
    and part: "\<And>t. part_ok r t = (next_part t \<noteq> j \<or> M \<le> length (filter is_failed_part t))"
    and j: "1 \<le> j" "j \<le> length (compressed_pipe r s bs)"
    and "length (filter is_failed_part tr) = k" and "k \<le> M" and "k \<le> MAX_RETRY_COUNT"
  shows "fst (upload_file_loop r s d e bs k tr) = Inr (M \<le> MAX_RETRY_COUNT)
       \<and> length (filter (is_part_at j) (snd (upload_file_loop r s d e bs k tr)))
           = length (filter (is_part_at j) tr) + (min (M + 1) (MAX_RETRY_COUNT + 1) - k)"
  using assms(6-8)
proof (induction "MAX_RETRY_COUNT - k" arbitrary: k tr rule: less_induct)
  case less
  let ?mp = "length tr"
  let ?cs = "compressed_pipe r s bs"
  let ?tr1 = "tr @ [Initiate d e (Some ?mp)]"
  have f1: "length (filter is_failed_part ?tr1) = k" using less.prems(1) by simp
  have n1: "next_part ?tr1 = 0 + 1" by (simp add: next_part_snoc)
  show ?case
  proof (cases "k < M")
    case True
    let ?tr2 = "?tr1 @ ok_parts ?mp (enumerate 0 (take (j - 1 - 0) ?cs))
                  @ [UploadPart ?mp j (?cs ! (j - 1 - 0)) None False]"
    have up: "upload_parts r ?mp (enumerate 0 ?cs) ?tr1 = (Inl S3ResponseError, ?tr2)"
      using upload_parts_chunk_fails[OF part _ n1, of ?cs ?mp] f1 True j by simp
    have "\<not> j \<le> 0 + length (take (j - 1 - 0) ?cs)" using j by simp
    then have "length (filter (is_part_at j)
        (ok_parts ?mp (enumerate 0 (take (j - 1 - 0) ?cs)))) = 0"
      unfolding count_part_at_ok by simp
    then have c0: "filter (is_part_at j) (ok_parts ?mp (enumerate 0 (take (j - 1 - 0) ?cs))) = []"
      by simp
    have cnt2: "length (filter (is_part_at j) ?tr2) = length (filter (is_part_at j) tr) + 1"
      using c0 by simp
    have f2: "length (filter is_failed_part ?tr2) = k + 1"
      using less.prems(1) by (simp add: ok_parts_none_failed)
    show ?thesis
    proof (cases "k < MAX_RETRY_COUNT")
      case k: True
      have m: "MAX_RETRY_COUNT - (k + 1) < MAX_RETRY_COUNT - k" using k by simp
      have eq: "upload_file_loop r s d e bs k tr
                  = upload_file_loop r s d e bs (k + 1) (?tr2 @ [Sleep SLEEP_TIME])"
        using loop_retry[OF init up k] .
      have "length (filter is_failed_part (?tr2 @ [Sleep SLEEP_TIME])) = k + 1"
        using f2 by simp
      from less.hyps[OF m this] True k
      have "fst (upload_file_loop r s d e bs (k + 1) (?tr2 @ [Sleep SLEEP_TIME]))
              = Inr (M \<le> MAX_RETRY_COUNT)"
        and "length (filter (is_part_at j)
               (snd (upload_file_loop r s d e bs (k + 1) (?tr2 @ [Sleep SLEEP_TIME]))))
             = length (filter (is_part_at j) (?tr2 @ [Sleep SLEEP_TIME]))
               + (min (M + 1) (MAX_RETRY_COUNT + 1) - (k + 1))"
        by auto
      then show ?thesis unfolding eq using cnt2 True k by auto
    next
      case k: False
      then have ge: "MAX_RETRY_COUNT \<le> k" by simp
      from loop_gives_up[OF init up ge] cancel_and_fail_spec[of r ?mp d ?tr2]
      obtain b evs where T: "upload_file_loop r s d e bs k tr
          = (Inr False, ?tr2 @ [Sleep SLEEP_TIME, Cancel ?mp b] @ evs)" "list_all is_cleanup evs"
        by auto
      have "min (M + 1) (MAX_RETRY_COUNT + 1) - k = 1"
        using True ge less.prems(3) by auto
      then show ?thesis
        unfolding T(1) using cnt2 cleanup_not_part_at[OF T(2), of j] True ge less.prems(3)
        by auto
    qed
  next
    case False
    then have kM: "k = M" using less.prems(2) by simp
    have "M \<le> length (filter is_failed_part ?tr1)" using f1 kM by simp
    from upload_parts_recovered[OF part this]
    have up: "upload_parts r ?mp (enumerate 0 ?cs) ?tr1
                = (Inr (), ?tr1 @ ok_parts ?mp (enumerate 0 ?cs))" .
    from loop_completes[OF init up compl]
    have T: "upload_file_loop r s d e bs k tr
       = (Inr True, (?tr1 @ ok_parts ?mp (enumerate 0 ?cs)) @ [Complete ?mp True])" .
    have one: "length (filter (is_part_at j) (ok_parts ?mp (enumerate 0 ?cs))) = 1"
      using count_part_at_ok[of j ?mp 0 ?cs] j by simp
    have "min (M + 1) (MAX_RETRY_COUNT + 1) - k = 1"
      using kM less.prems(3) by auto
    then show ?thesis unfolding T using one kM less.prems(3) by simp
  qed
qed

text \<open>
  C2, as the code has it. When the upload of one chunk, the \<open>j\<close>-th of the file,
  raises until it has raised \<open>M\<close> times and returns afterwards (and nothing else
  fails), the task succeeds if and only if \<open>M \<le> MAX_RETRY_COUNT\<close>, and that chunk
  is attempted \<open>min (M + 1) (MAX_RETRY_COUNT + 1)\<close> times: the constant bounds the
  retries, not the attempts.
\<close>

theorem retry_ceiling:
  assumes "\<forall>t. initiate_ok r t" and "\<forall>t. complete_ok r t"
    and "\<forall>t. part_ok r t = (next_part t \<noteq> j \<or> M \<le> length (filter is_failed_part t))"
    and "1 \<le> j" and "j \<le> length (compressed_pipe r source bufsize)"
  shows "fst (upload_file r source destination s3_ssenc bufsize) = Inr (M \<le> MAX_RETRY_COUNT)
       \<and> length (filter (is_part_at j) (snd (upload_file r source destination s3_ssenc bufsize)))
           = min (M + 1) (MAX_RETRY_COUNT + 1)"
proof -
  have "length (filter is_failed_part ([]::trace)) = 0" by simp
  from chunk_fails_loop[of r j M source bufsize "[]" 0 destination s3_ssenc,
      OF _ _ _ assms(4,5) this] assms(1-3)
  show ?thesis by (simp add: upload_file_def)
qed

theorem retry_ceiling_witness:
  "fst (upload_file (chunk_fails 2 3 [''c1'', ''c2'', ''c3'']) ''f'' ''base/f.lzo'' False 64)
     = Inr True
   \<and> length (filter (is_part_at 2)
        (snd (upload_file (chunk_fails 2 3 [''c1'', ''c2'', ''c3'']) ''f'' ''base/f.lzo'' False 64)))
      = 4
   \<and> fst (upload_file (chunk_fails 3 4 [''c1'', ''c2'', ''c3'']) ''f'' ''base/f.lzo'' False 64)
     = Inr False
   \<and> length (filter (is_part_at 3)
        (snd (upload_file (chunk_fails 3 4 [''c1'', ''c2'', ''c3'']) ''f'' ''base/f.lzo'' False 64)))
      = 4"
proof -
  let ?r = "chunk_fails 2 3 [''c1'', ''c2'', ''c3'']"
  let ?q = "chunk_fails 3 4 [''c1'', ''c2'', ''c3'']"
  have a: "\<forall>t. initiate_ok ?r t" and b: "\<forall>t. complete_ok ?r t"
    and c: "\<forall>t. part_ok ?r t = (next_part t \<noteq> 2 \<or> 3 \<le> length (filter is_failed_part t))"
    and d: "(1::nat) \<le> 2" and e: "2 \<le> length (compressed_pipe ?r ''f'' 64)"
    by (simp_all add: chunk_fails_def)
  have a': "\<forall>t. initiate_ok ?q t" and b': "\<forall>t. complete_ok ?q t"
    and c': "\<forall>t. part_ok ?q t = (next_part t \<noteq> 3 \<or> 4 \<le> length (filter is_failed_part t))"
    and d': "(1::nat) \<le> 3" and e': "3 \<le> length (compressed_pipe ?q ''f'' 64)"
    by (simp_all add: chunk_fails_def)
  from retry_ceiling[OF a b c d e, of "''base/f.lzo''" False]
    retry_ceiling[OF a' b' c' d' e', of "''base/f.lzo''" False]
  show ?thesis by (simp add: MAX_RETRY_COUNT_def)
qed

text \<open>
  C2 as it is stated fails at \<open>M = 3\<close>: the fourth attempt is made and succeeds.
\<close>

theorem fourth_attempt_is_made:
  "\<not> ((fst (upload_file (flaky 3 [''c'']) ''f'' ''base/f.lzo'' False 64) = Inr True
          \<longleftrightarrow> (3::nat) < MAX_RETRY_COUNT)
       \<and> length (filter (is_part_at 1)
            (snd (upload_file (flaky 3 [''c'']) ''f'' ''base/f.lzo'' False 64)))
          = min (3 + 1) MAX_RETRY_COUNT)"
  by code_simp

subsection \<open>Timeouts and abandoned sessions\<close>

lemma cleanup_untimed: "list_all is_cleanup evs \<Longrightarrow> list_all untimed evs"
  by (induction evs) (auto elim: is_cleanup.elims)

lemma upload_parts_untimed:
  "list_all untimed tr \<Longrightarrow> list_all untimed (snd (upload_parts r mp ics tr))"
proof (induction ics arbitrary: tr)
  case Nil
  then show ?case by simp
next
  case (Cons a ics)
  obtain i c where a: "a = (i, c)" by (cases a)
  show ?case using Cons a by simp
qed

lemma upload_file_loop_untimed:
  "list_all untimed tr \<Longrightarrow> list_all untimed (snd (upload_file_loop r s d e bs k tr))"
proof (induction "MAX_RETRY_COUNT - k" arbitrary: k tr rule: less_induct)
  case less
  show ?case
  proof (cases "initiate_ok r tr")
    case False
    then show ?thesis using less.prems by (simp add: loop_initiate_fails)
  next
    case True
    let ?tr1 = "tr @ [Initiate d e (Some (length tr))]"
    obtain x tr2 where up: "upload_parts r (length tr) (enumerate 0 (compressed_pipe r s bs)) ?tr1 = (x, tr2)"
      by (cases "upload_parts r (length tr) (enumerate 0 (compressed_pipe r s bs)) ?tr1") auto
    have u2: "list_all untimed tr2"
      using upload_parts_untimed[of ?tr1 r "length tr" "enumerate 0 (compressed_pipe r s bs)"]
        up less.prems by simp
    from True up show ?thesis
    proof (cases rule: pass_cases[where k = k])
      case (retry exc)
      have m: "MAX_RETRY_COUNT - (k + 1) < MAX_RETRY_COUNT - k" using retry(2) by simp
      have "list_all untimed (tr2 @ [Sleep SLEEP_TIME])" using u2 by simp
      from less.hyps[OF m this] show ?thesis using retry(3) by simp
    next
      case (gives_up exc b evs')
      then show ?thesis using u2 cleanup_untimed by auto
    next
      case (completes u)
      then show ?thesis using u2 by simp
    next
      case (cancels u b evs')
      then show ?thesis using u2 cleanup_untimed by auto
    next
      case (raises u)
      then show ?thesis using u2 by simp
    qed
  qed
qed

text \<open>
  C6 fails on the code. No part upload of \<open>upload_file\<close> runs under a limit: line 73
  calls \<open>mp.upload_part_from_file\<close> itself. Only \<open>upload_chunk\<close>, which nothing
  calls, runs it under \<open>UPLOAD_TIMEOUT\<close>. The last two conjuncts run both on a file of
  one chunk.
\<close>

theorem part_uploads_run_without_timeout:
  "list_all untimed (snd (upload_file r source destination s3_ssenc bufsize))
   \<and> \<not> list_all untimed (snd (upload_chunk r mp chunk index tr))
   \<and> upload_file (flaky 0 [''c'']) ''f'' ''base/f.lzo'' False 64
       = (Inr True, [Initiate ''base/f.lzo'' False (Some 0), UploadPart 0 1 ''c'' None True,
                     Complete 0 True])
   \<and> upload_chunk (flaky 0 [''c'']) 0 ''c'' 1 [Initiate ''base/f.lzo'' False (Some 0)]
       = (Inr (), [Initiate ''base/f.lzo'' False (Some 0),
                   UploadPart 0 1 ''c'' (Some 600) True])"
proof -
  have a: "list_all untimed (snd (upload_file r source destination s3_ssenc bufsize))"
    using upload_file_loop_untimed[of "[]" r source destination s3_ssenc bufsize 0]
    by (simp add: upload_file_def)
  have b: "\<not> list_all untimed (snd (upload_chunk r mp chunk index tr))"
    by (simp add: upload_chunk_def)
  have c: "upload_file (flaky 0 [''c'']) ''f'' ''base/f.lzo'' False 64
       = (Inr True, [Initiate ''base/f.lzo'' False (Some 0), UploadPart 0 1 ''c'' None True,
                     Complete 0 True])"
    by code_simp
  have d: "upload_chunk (flaky 0 [''c'']) 0 ''c'' 1 [Initiate ''base/f.lzo'' False (Some 0)]
       = (Inr (), [Initiate ''base/f.lzo'' False (Some 0),
                   UploadPart 0 1 ''c'' (Some 600) True])"
    by (simp add: upload_chunk_def flaky_def UPLOAD_TIMEOUT_def)
  from a b c d show ?thesis by blast
qed

text \<open>
  C3 fails on the code. When the only chunk of a file raises once, the task opens the
  sessions 0 and 3 and returns \<open>True\<close>; session 3 is completed, and session 0 gets
  neither \<open>complete_upload\<close> nor \<open>cancel_upload\<close>.
\<close>

theorem retried_session_is_abandoned:
  "upload_file (flaky 1 [''c'']) ''f'' ''base/f.lzo'' False 64
     = (Inr True,
        [Initiate ''base/f.lzo'' False (Some 0), UploadPart 0 1 ''c'' None False, Sleep 2,
         Initiate ''base/f.lzo'' False (Some 3), UploadPart 3 1 ''c'' None True,
         Complete 3 True])
   \<and> sessions_of (snd (upload_file (flaky 1 [''c'']) ''f'' ''base/f.lzo'' False 64)) = [0, 3]
   \<and> filter (ends_session 0) (snd (upload_file (flaky 1 [''c'']) ''f'' ''base/f.lzo'' False 64)) = []
   \<and> filter (ends_session 3) (snd (upload_file (flaky 1 [''c'']) ''f'' ''base/f.lzo'' False 64))
       = [Complete 3 True]"
  by code_simp

subsection \<open>The job\<close>

lemma task_returns_True: "fst (upload_file (flaky 0 [''c'']) f d e bs) = Inr True"
  by code_simp

lemma task_returns_False: "fst (upload_file (flaky 4 [''c'']) f d e bs) = Inr False"
  by code_simp

lemma task_raises: "fst (upload_file to_xml_raises f d e bs) = Inl S3ResponseError"
  by code_simp

text \<open>
  C5 fails on the code. With a path listed twice, every task successful and incremental
  mode set, the second \<open>os.remove\<close> raises after \<open>pool.terminate()\<close> and
  \<open>exit(0)\<close> is not reached. With a task that raises (at the \<open>mp.to_xml()\<close> of
  line 91), \<open>pool.imap\<close> raises it again in the loop: neither \<open>pool.terminate()\<close>
  nor \<open>exit\<close> is reached.
\<close>

theorem failed_removal_replaces_exit:
  "put_from_manifest (\<lambda>i. flaky 0 [''c'']) False ''base''
       (''/d/a'' @ [CHR 0x0A] @ ''/d/a'') 64 True {''/d/a''}
     = (Raised OSError,
        [TaskResult True, TaskResult True, PoolTerminate, Remove ''/d/a'' True,
         Remove ''/d/a'' False], {})
   \<and> put_from_manifest (\<lambda>i. to_xml_raises) False ''base'' ''/d/a'' 64 False {''/d/a''}
       = (Raised S3ResponseError, [], {''/d/a''})"
proof -
  have l: "splitlines (''/d/a'' @ [CHR 0x0A] @ ''/d/a'') = [''/d/a'', ''/d/a'']" by code_simp
  have l': "splitlines ''/d/a'' = [''/d/a'']" by code_simp
  have a: "put_from_manifest (\<lambda>i. flaky 0 [''c'']) False ''base''
       (''/d/a'' @ [CHR 0x0A] @ ''/d/a'') 64 True {''/d/a''}
     = (Raised OSError,
        [TaskResult True, TaskResult True, PoolTerminate, Remove ''/d/a'' True,
         Remove ''/d/a'' False], {})"
    unfolding put_from_manifest_def Let_def l
    by (simp add: enumerate_eq_zip upt_rec task_result_def task_returns_True)
  have b: "put_from_manifest (\<lambda>i. to_xml_raises) False ''base'' ''/d/a'' 64 False {''/d/a''}
       = (Raised S3ResponseError, [], {''/d/a''})"
    unfolding put_from_manifest_def Let_def l'
    by (simp add: enumerate_eq_zip upt_rec task_result_def task_raises)
  from a b show ?thesis by blast
qed

text \<open>
  C4 fails on the code. With incremental mode set and an empty line in the manifest,
  \<open>os.remove\<close> raises on the empty path and the file listed after it stays on the
  disk. With a task that raises, no file is removed at all, though it is on the disk and
  listed once.
\<close>

theorem failed_removal_keeps_later_files:
  "splitlines ([CHR 0x0A] @ ''/d/b'') = ['''', ''/d/b'']
   \<and> put_from_manifest first_task_fails False ''base'' ([CHR 0x0A] @ ''/d/b'') 64 True {''/d/b''}
       = (Raised OSError, [TaskResult False, PoolTerminate, Remove '''' False], {''/d/b''})
   \<and> put_from_manifest (\<lambda>i. to_xml_raises) False ''base'' ''/d/a'' 64 True {''/d/a''}
       = (Raised S3ResponseError, [], {''/d/a''})"
proof -
  have l: "splitlines ([CHR 0x0A] @ ''/d/b'') = ['''', ''/d/b'']" by code_simp
  have l': "splitlines ''/d/a'' = [''/d/a'']" by code_simp
  have a: "put_from_manifest first_task_fails False ''base'' ([CHR 0x0A] @ ''/d/b'') 64 True {''/d/b''}
       = (Raised OSError, [TaskResult False, PoolTerminate, Remove '''' False], {''/d/b''})"
    unfolding put_from_manifest_def Let_def l
    by (simp add: enumerate_eq_zip upt_rec task_result_def first_task_fails_def
        task_returns_False task_returns_True)
  have b: "put_from_manifest (\<lambda>i. to_xml_raises) False ''base'' ''/d/a'' 64 True {''/d/a''}
       = (Raised S3ResponseError, [], {''/d/a''})"
    unfolding put_from_manifest_def Let_def l'
    by (simp add: enumerate_eq_zip upt_rec task_result_def task_raises)
  from l a b show ?thesis by blast
qed

subsection \<open>The manifest\<close>

lemma split_char_nonempty: "split_char c s \<noteq> []"
  by (induction s) (auto split: list.splits)

lemma split_char_pieces: "w \<in> set (split_char c s) \<Longrightarrow> c \<notin> set w"
proof (induction s arbitrary: w)
  case Nil
  then show ?case by simp
next
  case (Cons x s)
  show ?case
  proof (cases "x = c")
    case True
    then show ?thesis using Cons by auto
  next
    case False
    obtain v vs where v: "split_char c s = v # vs"
      using split_char_nonempty[of c s] by (cases "split_char c s") auto
    then have "w = x # v \<or> w \<in> set vs" using Cons.prems False by simp
    then show ?thesis using Cons.IH v False by auto
  qed
qed

lemma split_char_no_sep: "c \<notin> set x \<Longrightarrow> split_char c x = [x]"
  by (induction x) auto

lemma split_char_append:
  "c \<notin> set x \<Longrightarrow> split_char c (x @ c # s) = x # split_char c s"
  by (induction x) auto

lemma split_join:
  "xs \<noteq> [] \<Longrightarrow> (\<And>x. x \<in> set xs \<Longrightarrow> c \<notin> set x) \<Longrightarrow> split_char c (join_str [c] xs) = xs"
proof (induction "[c]" xs rule: join_str.induct)
  case 1
  then show ?case by simp
next
  case (2 x)
  then show ?case by (simp add: split_char_no_sep)
next
  case (3 x y ys)
  then show ?case by (simp add: split_char_append)
qed

lemma strip_subset: "set (strip s) \<subseteq> set s"
proof -
  have "set (dropWhile is_space (rev (dropWhile is_space s))) \<subseteq> set (rev (dropWhile is_space s))"
    by (rule set_dropWhileD[THEN subsetI])
  also have "\<dots> \<subseteq> set s" using set_dropWhileD[of _ is_space s] by auto
  finally show ?thesis by (simp add: strip_def)
qed

lemma glob_entries_pieces: "f \<in> set (glob_entries glob path) \<Longrightarrow> CHR 0x0A \<notin> set f"
  using split_char_pieces strip_subset by (fastforce simp: glob_entries_def)

lemma glob_entries_no_match: "glob path = [] \<Longrightarrow> glob_entries glob path = ['''']"
  by (simp add: glob_entries_def strip_def)

lemma manifest_files_pieces:
  "f \<in> set (manifest_files config glob snapshot_name snapshot_keyspaces snapshot_table conf_path
       incremental_backups) \<Longrightarrow> CHR 0x0A \<notin> set f"
  using glob_entries_pieces by (fastforce simp: manifest_files_def)

text \<open>
  C10. A data path and a keyspace pattern whose glob matches nothing still add one entry,
  the empty string, to \<open>files\<close>; the lines of the written manifest (its text split
  at LF) are exactly \<open>files\<close>, so the manifest then has an empty line.
\<close>

theorem empty_glob_adds_empty_entry:
  assumes "data_path \<in> set (get_data_path config conf_path)"
    and "keyspace_glob \<in> set (keyspace_globs_of snapshot_keyspaces)"
    and "glob (snapshot_pattern snapshot_name snapshot_table data_path incremental_backups
               keyspace_glob) = []"
  shows "glob_entries glob
           (snapshot_pattern snapshot_name snapshot_table data_path incremental_backups
              keyspace_glob) = ['''']
       \<and> '''' \<in> set (manifest_files config glob snapshot_name snapshot_keyspaces snapshot_table
                        conf_path incremental_backups)
       \<and> split_char (CHR 0x0A)
            (create_upload_manifest config glob snapshot_name snapshot_keyspaces snapshot_table
               conf_path incremental_backups)
          = manifest_files config glob snapshot_name snapshot_keyspaces snapshot_table conf_path
              incremental_backups"
proof -
  let ?files = "manifest_files config glob snapshot_name snapshot_keyspaces snapshot_table
                  conf_path incremental_backups"
  have a: "glob_entries glob
           (snapshot_pattern snapshot_name snapshot_table data_path incremental_backups
              keyspace_glob) = ['''']"
    using assms(3) by (rule glob_entries_no_match[where glob = glob])
  have b: "'''' \<in> set ?files"
    unfolding manifest_files_def using assms(1,2) a by force
  then have "?files \<noteq> []" by auto
  then have c: "split_char (CHR 0x0A) (join_str [CHR 0x0A] ?files) = ?files"
    using split_join[of ?files "CHR 0x0A"] manifest_files_pieces by blast
  from a b c show ?thesis by (simp add: create_upload_manifest_def)
qed

theorem empty_glob_adds_empty_entry_witness:
  "''/d1'' \<in> set (get_data_path two_data_paths ''/etc/cassandra'')
   \<and> ''*'' \<in> set (keyspace_globs_of '''')
   \<and> one_snapshot_file (snapshot_pattern ''s1'' '''' ''/d1'' False ''*'') = []
   \<and> create_upload_manifest two_data_paths one_snapshot_file ''s1'' '''' '''' ''/etc/cassandra'' False
       = CHR 0x0A # ''/d2/ks/t/snapshots/s1/a.db''
   \<and> splitlines (create_upload_manifest two_data_paths one_snapshot_file ''s1'' '''' ''''
         ''/etc/cassandra'' False) = ['''', ''/d2/ks/t/snapshots/s1/a.db'']
   \<and> '''' \<in> set (manifest_files two_data_paths one_snapshot_file ''s1'' '''' ''''
                   ''/etc/cassandra'' False)"
proof -
  have a: "''/d1'' \<in> set (get_data_path two_data_paths ''/etc/cassandra'')"
    by (simp add: get_data_path_def two_data_paths_def)
  have b: "''*'' \<in> set (keyspace_globs_of '''')" by (simp add: keyspace_globs_of_def)
  have c: "one_snapshot_file (snapshot_pattern ''s1'' '''' ''/d1'' False ''*'') = []"
    by code_simp
  have d: "create_upload_manifest two_data_paths one_snapshot_file ''s1'' '''' '''' ''/etc/cassandra'' False
       = CHR 0x0A # ''/d2/ks/t/snapshots/s1/a.db''"
    by code_simp
  have e: "splitlines (CHR 0x0A # ''/d2/ks/t/snapshots/s1/a.db'') = ['''', ''/d2/ks/t/snapshots/s1/a.db'']"
    by code_simp
  from empty_glob_adds_empty_entry[where glob = one_snapshot_file and config = two_data_paths
      and snapshot_name = "''s1''" and snapshot_table = "''''" and incremental_backups = False
      and data_path = "''/d1''" and keyspace_glob = "''*''" and snapshot_keyspaces = "''''"
      and conf_path = "''/etc/cassandra''", OF a b c]
  have "'''' \<in> set (manifest_files two_data_paths one_snapshot_file ''s1'' '''' ''''
                   ''/etc/cassandra'' False)" by (rule conjunct2[THEN conjunct1])
  with a b c d e show ?thesis by (simp only: simp_thms)
qed

end
